theory Spec2Isabelle
  imports Complex_Main "HOL-Library.Sublist"
begin

section \<open>Text\<close>

text \<open>
  Python strings are sequences of code points. A text is modelled as a \<^typ>\<open>string\<close> whose
  characters are the code points below 256, so \<^const>\<open>length\<close> is Python's \<^verbatim>\<open>len\<close>.
  The character classes are the ones Python uses on that range: \<^verbatim>\<open>str.isspace\<close>,
  \<^verbatim>\<open>str.strip\<close>, \<^verbatim>\<open>str.split\<close> and the pattern \<^verbatim>\<open>\s\<close> share one notion of white space, and
  \<^verbatim>\<open>\w\<close> is an alphanumeric character or the underscore.
\<close>

definition newline :: char where
  "newline = CHR 0x0A"

definition is_space :: "char \<Rightarrow> bool" where
  "is_space c =
     (let n = (of_char c :: nat)
      in (9 \<le> n \<and> n \<le> 13) \<or> (28 \<le> n \<and> n \<le> 32) \<or> n = 133 \<or> n = 160)"

definition is_word :: "char \<Rightarrow> bool" where
  "is_word c =
     (let n = (of_char c :: nat)
      in (48 \<le> n \<and> n \<le> 57) \<or> (65 \<le> n \<and> n \<le> 90) \<or> n = 95 \<or> (97 \<le> n \<and> n \<le> 122)
         \<or> n = 170 \<or> n = 178 \<or> n = 179 \<or> n = 181 \<or> n = 185 \<or> n = 186
         \<or> (188 \<le> n \<and> n \<le> 190) \<or> (192 \<le> n \<and> n \<le> 214) \<or> (216 \<le> n \<and> n \<le> 246)
         \<or> 248 \<le> n)"

text \<open>\<^verbatim>\<open>str.strip()\<close>: white space is removed at both ends.\<close>

definition strip :: "string \<Rightarrow> string" where
  "strip s = rev (dropWhile is_space (rev (dropWhile is_space s)))"

text \<open>\<^verbatim>\<open>"\n".join(parts)\<close>.\<close>

fun join :: "string list \<Rightarrow> string" where
  "join [] = []"
| "join [p] = p"
| "join (p # q # ps) = p @ newline # join (q # ps)"

section \<open>The schema chunker (retrieval/chunk/chunks.py)\<close>

subsection \<open>The class pattern\<close>

text \<open>
  \<^verbatim>\<open>CLASS_PATTERN = (class\s+\w+\(Base\):[\s\S]*?)(?=\nclass\s+\w+\(Base\):|\Z)\<close>

  The pieces of the pattern are matchers that return the text left after the match.
  A greedy \<^verbatim>\<open>\s+\<close> or \<^verbatim>\<open>\w+\<close> takes the longest run of its class. The regex engine would
  also try shorter runs, but here a shorter run never helps: what follows \<^verbatim>\<open>\s+\<close> is a
  word character, what follows \<^verbatim>\<open>\w+\<close> is an opening parenthesis, and neither belongs
  to the class of the run before it. So the entity header has at most one match at a
  position.
\<close>

fun lit :: "string \<Rightarrow> string \<Rightarrow> string option" where
  "lit [] s = Some s"
| "lit (p # ps) [] = None"
| "lit (p # ps) (c # cs) = (if p = c then lit ps cs else None)"

definition plus_class :: "(char \<Rightarrow> bool) \<Rightarrow> string \<Rightarrow> string option" where
  "plus_class P s = (if takeWhile P s = [] then None else Some (dropWhile P s))"

text \<open>\<^verbatim>\<open>class\s+\w+\(Base\):\<close> at the start of the text.\<close>

definition class_header :: "string \<Rightarrow> string option" where
  "class_header s =
     Option.bind (lit ''class'' s) (\<lambda>s1.
     Option.bind (plus_class is_space s1) (\<lambda>s2.
     Option.bind (plus_class is_word s2) (\<lambda>s3.
     lit ''(Base):'' s3)))"

text \<open>The lookahead \<^verbatim>\<open>(?=\nclass\s+\w+\(Base\):|\Z)\<close>: \<^verbatim>\<open>\Z\<close> holds at the end of the text only.\<close>

fun lookahead :: "string \<Rightarrow> bool" where
  "lookahead [] = True"
| "lookahead (c # cs) = (c = newline \<and> class_header cs \<noteq> None)"

text \<open>
  The lazy \<^verbatim>\<open>[\s\S]*?\<close> followed by the lookahead: characters are taken one at a time
  until the lookahead holds. The result is the body and the text from where the lookahead
  held.
\<close>

fun lazy_body :: "string \<Rightarrow> string \<times> string" where
  "lazy_body [] = ([], [])"
| "lazy_body (c # cs) =
     (if lookahead (c # cs) then ([], c # cs)
      else (case lazy_body cs of (b, r) \<Rightarrow> (c # b, r)))"

text \<open>One match of the whole pattern at the start of the text: group 1 and the text after it.\<close>

definition class_match :: "string \<Rightarrow> (string \<times> string) option" where
  "class_match s =
     (case class_header s of
        None \<Rightarrow> None
      | Some rest \<Rightarrow>
          (case lazy_body rest of
             (b, r) \<Rightarrow> Some (take (length s - length rest) s @ b, r)))"

text \<open>
  \<^verbatim>\<open>CLASS_PATTERN.findall(text)\<close>: the matches from left to right, without overlap. Where
  the pattern does not match, the scan moves one character on; after a match it goes on
  from the end of the match (a match is never empty: it holds the header).
\<close>

function findall :: "string \<Rightarrow> string list" where
  "findall [] = []"
| "findall (c # cs) =
     (case class_match (c # cs) of
        None \<Rightarrow> findall cs
      | Some (block, rest) \<Rightarrow> block # findall rest)"
  by pat_completeness auto
termination
proof (relation "measure length", goal_cases)
  case 1
  show ?case by simp
next
  case (2 c cs)
  show ?case by simp
next
  case (3 c cs m block rest)
  then have m: "class_match (c # cs) = Some (block, rest)" by simp
  have lit_shorter: "length r \<le> length s" if "lit p s = Some r" for p s r
    using that by (induction p s rule: lit.induct) (auto split: if_splits)
  have plus_shorter: "length r < length s" if "plus_class P s = Some r" for P s r
  proof -
    from that have ne: "takeWhile P s \<noteq> []" and r: "r = dropWhile P s"
      by (auto simp: plus_class_def split: if_splits)
    have "length (takeWhile P s) + length (dropWhile P s) = length s"
      by (metis length_append takeWhile_dropWhile_id)
    with ne r show ?thesis by (cases "takeWhile P s") auto
  qed
  have body: "length b + length r = length s" if "lazy_body s = (b, r)" for s b r
    using that by (induction s arbitrary: b r) (auto split: if_splits prod.splits)
  from m obtain rest0 b where h: "class_header (c # cs) = Some rest0"
    and l: "lazy_body rest0 = (b, rest)"
    by (auto simp: class_match_def split: option.splits prod.splits)
  from h obtain s1 s2 s3 where
    "lit ''class'' (c # cs) = Some s1" "plus_class is_space s1 = Some s2"
    "plus_class is_word s2 = Some s3" "lit ''(Base):'' s3 = Some rest0"
    by (auto simp: class_header_def split: bind_splits)
  then have "length rest0 < length (c # cs)"
    using lit_shorter [of "''class''" "c # cs" s1] plus_shorter [of is_space s1 s2]
      plus_shorter [of is_word s2 s3] lit_shorter [of "''(Base):''" s3 rest0]
    by linarith
  moreover have "length rest \<le> length rest0" using body [OF l] by simp
  ultimately show ?case by simp
qed

subsection \<open>Splitting a large block\<close>

text \<open>
  \<^verbatim>\<open>re.split(r"\n\s{4}(?=#|\w)", block)\<close>: a separator is a newline and four white-space
  characters, in front of a \<^verbatim>\<open>#\<close> or a word character (which is not consumed).
  \<open>re_split_from acc s\<close> holds in \<open>acc\<close> the piece read so far.
\<close>

fun re_split_from :: "string \<Rightarrow> string \<Rightarrow> string list" where
  "re_split_from acc (c0 # c1 # c2 # c3 # c4 # c5 # cs) =
     (if c0 = newline \<and> is_space c1 \<and> is_space c2 \<and> is_space c3 \<and> is_space c4
         \<and> (c5 = CHR ''#'' \<or> is_word c5)
      then acc # re_split_from [] (c5 # cs)
      else re_split_from (acc @ [c0]) (c1 # c2 # c3 # c4 # c5 # cs))"
| "re_split_from acc (c # cs) = re_split_from (acc @ [c]) cs"
| "re_split_from acc [] = [acc]"

definition re_split :: "string \<Rightarrow> string list" where
  "re_split s = re_split_from [] s"

text \<open>\<^verbatim>\<open>sum(len(x) for x in running)\<close>.\<close>

definition total_len :: "string list \<Rightarrow> int" where
  "total_len running = (\<Sum>x\<leftarrow>running. int (length x))"

text \<open>
  The loop of \<^verbatim>\<open>_split_large_block\<close> over \<^verbatim>\<open>remainder\<close>, with its two variables
  \<^verbatim>\<open>sub_chunks\<close> and \<^verbatim>\<open>running\<close>, and the final \<^verbatim>\<open>if running:\<close>.
\<close>

fun pack :: "int \<Rightarrow> string \<Rightarrow> string list \<Rightarrow> string list \<Rightarrow> string list \<Rightarrow> string list" where
  "pack m header sub_chunks running [] =
     (if running \<noteq> [] then sub_chunks @ [join running] else sub_chunks)"
| "pack m header sub_chunks running (part # remainder) =
     (if total_len running + int (length part) > m
      then pack m header (sub_chunks @ [join running]) [header, part] remainder
      else pack m header sub_chunks (running @ [part]) remainder)"

text \<open>
  The same packing as the list of the groups of members, one group for each sub-chunk
  (\<open>current\<close> is the group of the running sub-chunk); lemma \<open>pack_groups\<close> relates it to
  \<^const>\<open>pack\<close>.
\<close>

fun greedy_groups :: "int \<Rightarrow> string \<Rightarrow> string list \<Rightarrow> string list \<Rightarrow> string list list" where
  "greedy_groups m header current [] = [current]"
| "greedy_groups m header current (part # members) =
     (if total_len (header # current) + int (length part) > m
      then current # greedy_groups m header [part] members
      else greedy_groups m header (current @ [part]) members)"

text \<open>
  \<^verbatim>\<open>_split_large_block\<close>. \<^verbatim>\<open>re.split\<close> returns at least one piece, so \<^verbatim>\<open>parts[0]\<close>
  exists (lemma \<open>re_split_not_Nil\<close> below); the first case is never taken.
\<close>

definition split_large_block :: "int \<Rightarrow> string \<Rightarrow> string list" where
  "split_large_block m block =
     (case re_split block of
        [] \<Rightarrow> []
      | header # remainder \<Rightarrow> pack m header [] [header] remainder)"

subsection \<open>chunk\<close>

text \<open>
  \<^verbatim>\<open>max_chunk_size\<close> is an \<^verbatim>\<open>Optional[int]\<close>; \<^verbatim>\<open>None\<close> and \<^verbatim>\<open>0\<close> are falsy.
\<close>

definition chunk_block :: "int option \<Rightarrow> string \<Rightarrow> string list" where
  "chunk_block max_chunk_size block =
     (let clean_block = strip block
      in case max_chunk_size of
           None \<Rightarrow> [clean_block]
         | Some m \<Rightarrow>
             if m \<noteq> 0 \<and> int (length clean_block) > m
             then split_large_block m clean_block
             else [clean_block])"

definition chunk :: "int option \<Rightarrow> string \<Rightarrow> string list" where
  "chunk max_chunk_size text = concat (map (chunk_block max_chunk_size) (findall text))"

text \<open>
  A notion for the proof that chunking is idempotent. A stripped block is good: it starts
  with a header, it does not end in white space, and inside its body the lookahead fails
  in front of every text that satisfies the lookahead.
\<close>

definition good :: "string \<Rightarrow> bool" where
  "good c \<longleftrightarrow>
     (\<exists>b. class_header c = Some b \<and> \<not> is_space (last c)
        \<and> (\<forall>u v r. b = u @ v \<longrightarrow> v \<noteq> [] \<longrightarrow> lookahead r \<longrightarrow> \<not> lookahead (v @ r)))"

section \<open>Search (retrieval/search.py, bm25\_search.py, semantic\_search.py)\<close>

text \<open>
  The exceptions the search code can raise. \<^verbatim>\<open>ValueError\<close> carries its message: the
  "not built" error is \<^verbatim>\<open>ValueError("Index not built. Call build_index() first.")\<close>.
\<close>

datatype error = ValueError string | ZeroDivisionError | IndexError | AttributeError

definition not_built :: error where
  "not_built = ValueError ''Index not built. Call build_index() first.''"

definition no_embedding_model :: error where
  "no_embedding_model = ValueError ''Embedding model not provided in __init__''"

text \<open>
  The calls a search makes into the scoring library and the embedding model. A search
  returns them, in order, next to its outcome.
\<close>

datatype call = Get_scores "string list" | Embed_query string

text \<open>One entry of the list \<^verbatim>\<open>search\<close> returns: the keys \<^verbatim>\<open>content\<close>, \<^verbatim>\<open>score\<close>, \<^verbatim>\<open>index\<close>.\<close>

record search_result =
  content :: string
  score :: real
  index :: nat

subsection \<open>Python and numpy operations\<close>

text \<open>\<^verbatim>\<open>str.lower()\<close> on code points below 256.\<close>

definition lower_char :: "char \<Rightarrow> char" where
  "lower_char c =
     (let n = (of_char c :: nat)
      in if (65 \<le> n \<and> n \<le> 90) \<or> (192 \<le> n \<and> n \<le> 222 \<and> n \<noteq> 215)
         then char_of (n + 32) else c)"

definition lower :: "string \<Rightarrow> string" where
  "lower s = map lower_char s"

text \<open>\<^verbatim>\<open>str.split()\<close>: the maximal runs of characters that are not white space.\<close>

fun split_from :: "string \<Rightarrow> string \<Rightarrow> string list" where
  "split_from acc [] = (if acc = [] then [] else [acc])"
| "split_from acc (c # cs) =
     (if is_space c
      then (if acc = [] then split_from [] cs else acc # split_from [] cs)
      else split_from (acc @ [c]) cs)"

definition split :: "string \<Rightarrow> string list" where
  "split s = split_from [] s"

text \<open>
  \<^verbatim>\<open>np.argsort(scores)\<close>: the indices in ascending order of their scores. numpy does not
  fix the order of indices with equal scores; the model keeps them in index order.
  Scores are floating-point numbers in the program and real numbers here.
\<close>

definition argsort :: "real list \<Rightarrow> nat list" where
  "argsort scores = sort_key (\<lambda>i. scores ! i) [0..<length scores]"

text \<open>
  The slice \<^verbatim>\<open>a[-k:]\<close>. For \<open>k > 0\<close> it starts \<open>k\<close> places before the end (at the start
  when the list is shorter); \<^verbatim>\<open>-0\<close> is \<^verbatim>\<open>0\<close>, so for \<open>k = 0\<close> it is the whole list; for
  \<open>k < 0\<close> it starts at position \<open>-k\<close>.
\<close>

definition last_k :: "int \<Rightarrow> 'a list \<Rightarrow> 'a list" where
  "last_k k a = (if 0 < k then drop (length a - nat k) a else drop (nat (- k)) a)"

text \<open>\<^verbatim>\<open>np.argsort(scores)[-k:][::-1]\<close>.\<close>

definition top_indices :: "real list \<Rightarrow> int \<Rightarrow> nat list" where
  "top_indices scores k = rev (last_k k (argsort scores))"

subsection \<open>The scoring library\<close>

text \<open>
  \<^verbatim>\<open>BM25Okapi\<close> is the class of the package \<^verbatim>\<open>rank_bm25\<close>, which the repository
  imports and does not contain. Its constructor and \<^verbatim>\<open>get_scores\<close> are written here as
  the package (version 0.2.2) has them, with its default constants and with real numbers
  for floats. The dictionaries are association lists in insertion order. The general
  lemmas about \<^verbatim>\<open>BM25Search\<close> use one fact of the library only: a constructed index
  returns one score for each document of the corpus.
\<close>

definition okapi_k1 :: real where "okapi_k1 = 3 / 2"
definition okapi_b :: real where "okapi_b = 3 / 4"
definition okapi_epsilon :: real where "okapi_epsilon = 1 / 4"

record bm25okapi =
  corpus_size :: nat
  avgdl :: real
  doc_freqs :: "(string \<times> nat) list list"
  idf :: "(string \<times> real) list"
  doc_len :: "nat list"
  average_idf :: real

text \<open>\<^verbatim>\<open>d[word] += 1\<close>, where a missing key counts as 0.\<close>

fun incr :: "string \<Rightarrow> (string \<times> nat) list \<Rightarrow> (string \<times> nat) list" where
  "incr w [] = [(w, 1)]"
| "incr w ((k, v) # kvs) = (if k = w then (k, v + 1) # kvs else (k, v) # incr w kvs)"

definition frequencies_of :: "string list \<Rightarrow> (string \<times> nat) list" where
  "frequencies_of document = foldl (\<lambda>frequencies word. incr word frequencies) [] document"

text \<open>
  \<^verbatim>\<open>_initialize\<close>: the loop over the corpus. The state is \<open>(nd, num_doc, bm)\<close>, where \<open>bm\<close>
  holds \<^verbatim>\<open>doc_len\<close>, \<^verbatim>\<open>doc_freqs\<close> and \<^verbatim>\<open>corpus_size\<close>.
\<close>

definition initialize_step ::
  "(string \<times> nat) list \<times> nat \<times> bm25okapi \<Rightarrow> string list
     \<Rightarrow> (string \<times> nat) list \<times> nat \<times> bm25okapi" where
  "initialize_step st document =
     (case st of (nd, num_doc, bm) \<Rightarrow>
        let frequencies = frequencies_of document
        in (foldl (\<lambda>nd (word, freq). incr word nd) nd frequencies,
            num_doc + length document,
            bm\<lparr>doc_len := doc_len bm @ [length document],
               doc_freqs := doc_freqs bm @ [frequencies],
               corpus_size := corpus_size bm + 1\<rparr>))"

definition empty_bm25 :: bm25okapi where
  "empty_bm25 = \<lparr>corpus_size = 0, avgdl = 0, doc_freqs = [], idf = [], doc_len = [],
                  average_idf = 0\<rparr>"

text \<open>\<^verbatim>\<open>self.avgdl = num_doc / self.corpus_size\<close> raises on an empty corpus.\<close>

definition initialize :: "string list list \<Rightarrow> error + (string \<times> nat) list \<times> bm25okapi" where
  "initialize corpus =
     (case foldl initialize_step ([], 0, empty_bm25) corpus of (nd, num_doc, bm) \<Rightarrow>
        if corpus_size bm = 0 then Inl ZeroDivisionError
        else Inr (nd, bm\<lparr>avgdl := real num_doc / real (corpus_size bm)\<rparr>))"

text \<open>
  \<^verbatim>\<open>_calc_idf\<close>: \<^verbatim>\<open>idf_sum / len(self.idf)\<close> raises when no document has a word; a
  negative idf is replaced by \<^verbatim>\<open>epsilon * average_idf\<close>.
\<close>

definition calc_idf :: "(string \<times> nat) list \<Rightarrow> bm25okapi \<Rightarrow> error + bm25okapi" where
  "calc_idf nd bm =
     (let idf0 = map (\<lambda>(word, freq).
                   (word, ln (real (corpus_size bm) - real freq + 1 / 2) - ln (real freq + 1 / 2))) nd;
          idf_sum = (\<Sum>(word, v)\<leftarrow>idf0. v)
      in if length idf0 = 0 then Inl ZeroDivisionError
         else let average = idf_sum / real (length idf0);
                  eps = okapi_epsilon * average
              in Inr (bm\<lparr>average_idf := average,
                         idf := map (\<lambda>(word, v). (word, if v < 0 then eps else v)) idf0\<rparr>))"

definition BM25Okapi :: "string list list \<Rightarrow> error + bm25okapi" where
  "BM25Okapi corpus =
     (case initialize corpus of
        Inl e \<Rightarrow> Inl e
      | Inr (nd, bm) \<Rightarrow> calc_idf nd bm)"

text \<open>\<^verbatim>\<open>d.get(q) or 0\<close>.\<close>

definition get_or_0 :: "(string \<times> 'a::zero) list \<Rightarrow> string \<Rightarrow> 'a" where
  "get_or_0 d q = (case map_of d q of None \<Rightarrow> 0 | Some v \<Rightarrow> v)"

text \<open>\<^verbatim>\<open>get_scores\<close>: one pass of the loop over the query adds a term to every score.\<close>

definition score_step :: "bm25okapi \<Rightarrow> real list \<Rightarrow> string \<Rightarrow> real list" where
  "score_step bm score_acc q =
     map2 (+) score_acc
       (map2 (\<lambda>doc dl.
           let q_freq = real (get_or_0 doc q)
           in get_or_0 (idf bm) q *
              (q_freq * (okapi_k1 + 1) /
               (q_freq + okapi_k1 * (1 - okapi_b + okapi_b * real dl / avgdl bm))))
          (doc_freqs bm) (doc_len bm))"

definition get_scores :: "bm25okapi \<Rightarrow> string list \<Rightarrow> real list" where
  "get_scores bm query = foldl (score_step bm) (replicate (corpus_size bm) 0) query"

subsection \<open>BM25Search\<close>

record BM25Search =
  documents :: "string list"
  bm25 :: "bm25okapi option"
  tokenized_docs :: "string list list"

definition bm25_init :: BM25Search where
  "bm25_init = \<lparr>documents = [], bm25 = None, tokenized_docs = []\<rparr>"

text \<open>
  \<^verbatim>\<open>build_index\<close> assigns \<^verbatim>\<open>documents\<close> and \<^verbatim>\<open>tokenized_docs\<close> before it calls the
  constructor; when the constructor raises, \<^verbatim>\<open>bm25\<close> keeps its old value.
\<close>

definition bm25_build_index :: "BM25Search \<Rightarrow> string list \<Rightarrow> (error + unit) \<times> BM25Search" where
  "bm25_build_index self docs =
     (let self1 = self\<lparr>documents := docs, tokenized_docs := map (\<lambda>doc. split (lower doc)) docs\<rparr>
      in case BM25Okapi (tokenized_docs self1) of
           Inl e \<Rightarrow> (Inl e, self1)
         | Inr bm \<Rightarrow> (Inr (), self1\<lparr>bm25 := Some bm\<rparr>))"

text \<open>
  The list comprehension of \<^verbatim>\<open>search\<close>: the filter \<^verbatim>\<open>scores[idx] > 0\<close> is tested first,
  then \<^verbatim>\<open>self.documents[idx]\<close> is read, which raises when the index is out of range.
\<close>

fun bm25_results :: "string list \<Rightarrow> real list \<Rightarrow> nat list \<Rightarrow> error + search_result list" where
  "bm25_results docs scores [] = Inr []"
| "bm25_results docs scores (idx # rest) =
     (if scores ! idx > 0
      then (if idx < length docs
            then (case bm25_results docs scores rest of
                    Inl e \<Rightarrow> Inl e
                  | Inr rs \<Rightarrow> Inr (\<lparr>content = docs ! idx, score = scores ! idx, index = idx\<rparr> # rs))
            else Inl IndexError)
      else bm25_results docs scores rest)"

definition bm25_search :: "BM25Search \<Rightarrow> string \<Rightarrow> int \<Rightarrow> call list \<times> (error + search_result list)" where
  "bm25_search self query k =
     (case bm25 self of
        None \<Rightarrow> ([], Inl not_built)
      | Some bm \<Rightarrow>
          let tokenized_query = split (lower query);
              scores = get_scores bm tokenized_query
          in ([Get_scores tokenized_query],
              bm25_results (documents self) scores (top_indices scores k)))"

subsection \<open>SemanticSearch\<close>

text \<open>
  The embedding model is a function from a text to its vector
  (\<^verbatim>\<open>embedding_model.embed_query\<close>), or \<^verbatim>\<open>None\<close>.
\<close>

record SemanticSearch =
  s_documents :: "string list"
  embeddings :: "real list list"
  embedding_model :: "(string \<Rightarrow> real list) option"

definition semantic_init :: "(string \<Rightarrow> real list) option \<Rightarrow> SemanticSearch" where
  "semantic_init model = \<lparr>s_documents = [], embeddings = [], embedding_model = model\<rparr>"

text \<open>
  \<^verbatim>\<open>np.array\<close> of a list of vectors needs vectors of one length (numpy raises a
  \<^verbatim>\<open>ValueError\<close> for a ragged list).
\<close>

definition np_array :: "real list list \<Rightarrow> error + real list list" where
  "np_array rows =
     (if list_all (\<lambda>r. length r = length (hd rows)) rows then Inr rows
      else Inl (ValueError ''inhomogeneous shape''))"

definition semantic_build_index ::
  "SemanticSearch \<Rightarrow> string list \<Rightarrow> (error + unit) \<times> SemanticSearch" where
  "semantic_build_index self docs =
     (case embedding_model self of
        None \<Rightarrow> (Inl no_embedding_model, self)
      | Some embed_query \<Rightarrow>
          (let self1 = self\<lparr>s_documents := docs, embeddings := map embed_query docs\<rparr>
           in (case np_array (embeddings self1) of
                 Inl e \<Rightarrow> (Inl e, self1)
               | Inr a \<Rightarrow> (Inr (), self1\<lparr>embeddings := a\<rparr>))))"

text \<open>\<^verbatim>\<open>np.dot\<close> of two vectors raises when their lengths differ; \<^verbatim>\<open>np.linalg.norm\<close>.\<close>

definition np_dot :: "real list \<Rightarrow> real list \<Rightarrow> error + real" where
  "np_dot x y =
     (if length x = length y then Inr (\<Sum>(u, v)\<leftarrow>zip x y. u * v)
      else Inl (ValueError ''shapes not aligned''))"

definition np_norm :: "real list \<Rightarrow> real" where
  "np_norm x = sqrt (\<Sum>u\<leftarrow>x. u * u)"

definition cos_eps :: real where
  "cos_eps = 1 / 10 ^ 9"

definition denominator :: "real list \<Rightarrow> real list \<Rightarrow> real" where
  "denominator x y = np_norm x * np_norm y + cos_eps"

text \<open>The body of the loop over the stored embeddings.\<close>

definition similarity :: "real list \<Rightarrow> real list \<Rightarrow> error + real" where
  "similarity query_embedding doc_embedding =
     (case np_dot query_embedding doc_embedding of
        Inl e \<Rightarrow> Inl e
      | Inr d \<Rightarrow> Inr (d / denominator query_embedding doc_embedding))"

fun similarities_of :: "real list \<Rightarrow> real list list \<Rightarrow> error + real list" where
  "similarities_of q [] = Inr []"
| "similarities_of q (d # ds) =
     (case similarity q d of
        Inl e \<Rightarrow> Inl e
      | Inr s \<Rightarrow> (case similarities_of q ds of Inl e \<Rightarrow> Inl e | Inr ss \<Rightarrow> Inr (s # ss)))"

fun semantic_results :: "string list \<Rightarrow> real list \<Rightarrow> nat list \<Rightarrow> error + search_result list" where
  "semantic_results docs sims [] = Inr []"
| "semantic_results docs sims (idx # rest) =
     (if idx < length docs
      then (case semantic_results docs sims rest of
              Inl e \<Rightarrow> Inl e
            | Inr rs \<Rightarrow> Inr (\<lparr>content = docs ! idx, score = sims ! idx, index = idx\<rparr> # rs))
      else Inl IndexError)"

definition semantic_search ::
  "SemanticSearch \<Rightarrow> string \<Rightarrow> int \<Rightarrow> call list \<times> (error + search_result list)" where
  "semantic_search self query k =
     (if length (embeddings self) = 0 then ([], Inl not_built)
      else case embedding_model self of
             None \<Rightarrow> ([], Inl AttributeError)
           | Some embed_query \<Rightarrow>
               ([Embed_query query],
                case similarities_of (embed_query query) (embeddings self) of
                  Inl e \<Rightarrow> Inl e
                | Inr sims \<Rightarrow> semantic_results (s_documents self) sims (top_indices sims k)))"

section \<open>Searching before, and after, an empty build\<close>

lemma BM25Okapi_empty: "BM25Okapi [] = Inl ZeroDivisionError"
  by (simp add: BM25Okapi_def initialize_def empty_bm25_def)

lemma bm25_build_index_empty:
  "bm25_build_index self [] = (Inl ZeroDivisionError, self\<lparr>documents := [], tokenized_docs := []\<rparr>)"
  by (simp add: bm25_build_index_def BM25Okapi_empty)

text \<open>
  C2. On a freshly constructed \<^verbatim>\<open>BM25Search\<close> or \<^verbatim>\<open>SemanticSearch\<close> (with or without an
  embedding model), \<^verbatim>\<open>search\<close> raises the "not built" error for every query and every
  \<open>k\<close>, and it has made no call to the scoring library or the embedding model by then.
\<close>

theorem search_before_build_index:
  "bm25_search bm25_init query k = ([], Inl not_built)
   \<and> semantic_search (semantic_init model) query k = ([], Inl not_built)"
  by (simp add: bm25_search_def bm25_init_def semantic_search_def semantic_init_def)

text \<open>
  C9. The code does not do what the claim says: \<^verbatim>\<open>BM25Search.build_index([])\<close> has no
  guard for the empty corpus, the constructor of the scoring library divides the number
  of tokens by the number of documents, and the \<^verbatim>\<open>ZeroDivisionError\<close> escapes. The
  \<^verbatim>\<open>bm25\<close> attribute keeps its value, so on a fresh instance the \<^verbatim>\<open>search("x", k=3)\<close>
  that follows raises the "not built" error. The search itself would return the empty
  sequence on an index of no documents (lemma \<open>bm25_search_empty_index\<close>).
\<close>

theorem bm25_empty_corpus_raises:
  "fst (bm25_build_index self []) = Inl ZeroDivisionError
   \<and> bm25 (snd (bm25_build_index self [])) = bm25 self
   \<and> bm25_search (snd (bm25_build_index bm25_init [])) ''x'' 3 = ([], Inl not_built)"
  by (simp add: bm25_build_index_empty bm25_search_def bm25_init_def)

text \<open>
  C10. When \<^verbatim>\<open>SemanticSearch\<close> has an embedding model, \<^verbatim>\<open>build_index([])\<close> succeeds, and
  every \<^verbatim>\<open>search\<close> after it raises the "not built" error (without embedding the query):
  the check of \<^verbatim>\<open>search\<close> is that the stored embeddings are empty.
\<close>

theorem semantic_empty_index_not_built:
  "embedding_model self = Some embed_query \<Longrightarrow>
     fst (semantic_build_index self []) = Inr ()
     \<and> semantic_search (snd (semantic_build_index self [])) query k = ([], Inl not_built)"
  by (simp add: semantic_build_index_def np_array_def semantic_search_def)

theorem semantic_empty_index_not_built_witness:
  "embedding_model (semantic_init (Some (\<lambda>t. [1, 0]))) = Some (\<lambda>t. [1, 0])
   \<and> fst (semantic_build_index (semantic_init (Some (\<lambda>t. [1, 0]))) []) = Inr ()
   \<and> semantic_search (snd (semantic_build_index (semantic_init (Some (\<lambda>t. [1, 0]))) [])) ''x'' 3
       = ([], Inl not_built)"
proof -
  have h: "embedding_model (semantic_init (Some (\<lambda>t. [1, 0]))) = Some (\<lambda>t. [1, 0])"
    by (simp add: semantic_init_def)
  show ?thesis
    using h semantic_empty_index_not_built [OF h, of "''x''" 3] by simp
qed

section \<open>Ranking\<close>

text \<open>What the proofs use of \<^const>\<open>argsort\<close>: it is a permutation of the indices, in ascending order of score.\<close>

lemma argsort_set: "set (argsort xs) = {0..<length xs}"
  by (simp add: argsort_def)


lemma argsort_length: "length (argsort xs) = length xs"
  by (simp add: argsort_def)

lemma argsort_sorted: "sorted (map (\<lambda>i. xs ! i) (argsort xs))"
  by (simp add: argsort_def sorted_sort_key)

lemma last_k_drop: "\<exists>n. last_k k a = drop n a"
  by (auto simp: last_k_def)

lemma last_k_length: "0 < k \<Longrightarrow> length (last_k k a) = min (nat k) (length a)"
  by (auto simp: last_k_def)

lemma top_indices_set: "set (top_indices xs k) \<subseteq> {0..<length xs}"
proof -
  obtain n where "last_k k (argsort xs) = drop n (argsort xs)"
    using last_k_drop by blast
  then have "set (top_indices xs k) \<subseteq> set (argsort xs)"
    by (simp add: top_indices_def set_drop_subset)
  then show ?thesis by (simp add: argsort_set)
qed


lemma top_indices_length: "0 < k \<Longrightarrow> length (top_indices xs k) = min (nat k) (length xs)"
  by (simp add: top_indices_def last_k_length argsort_length)

lemma top_indices_descending: "sorted_wrt (\<ge>) (map (\<lambda>i. xs ! i) (top_indices xs k))"
proof -
  obtain n where n: "last_k k (argsort xs) = drop n (argsort xs)"
    using last_k_drop by blast
  have "sorted (drop n (map (\<lambda>i. xs ! i) (argsort xs)))"
    using argsort_sorted by (rule sorted_wrt_drop)
  then have "sorted (map (\<lambda>i. xs ! i) (drop n (argsort xs)))"
    by (simp add: drop_map)
  then show ?thesis
    by (simp add: top_indices_def n sorted_wrt_rev rev_map [symmetric] del: rev_map) 
qed


section \<open>Lexical search\<close>

lemma bm25_results_eq:
  "\<forall>i\<in>set idxs. i < length docs \<Longrightarrow>
     bm25_results docs scores idxs =
       Inr (map (\<lambda>i. \<lparr>content = docs ! i, score = scores ! i, index = i\<rparr>)
              (filter (\<lambda>i. scores ! i > 0) idxs))"
  by (induction idxs) auto

lemma initialize_fold:
  "foldl initialize_step (nd, num_doc, bm) corpus = (nd', num_doc', bm') \<Longrightarrow>
     corpus_size bm' = corpus_size bm + length corpus
     \<and> length (doc_freqs bm') = length (doc_freqs bm) + length corpus
     \<and> length (doc_len bm') = length (doc_len bm) + length corpus"
proof (induction corpus arbitrary: nd num_doc bm)
  case Nil
  then show ?case by simp
next
  case (Cons document corpus)
  then show ?case
    by (simp add: initialize_step_def Let_def)
qed

lemma BM25Okapi_sizes:
  assumes "BM25Okapi corpus = Inr bm"
  shows "corpus_size bm = length corpus \<and> length (doc_freqs bm) = length corpus
         \<and> length (doc_len bm) = length corpus"
proof -
  obtain nd num_doc bm0 where f: "foldl initialize_step ([], 0, empty_bm25) corpus = (nd, num_doc, bm0)"
    by (metis prod_cases3)
  from initialize_fold [OF f]
  have s: "corpus_size bm0 = length corpus \<and> length (doc_freqs bm0) = length corpus
           \<and> length (doc_len bm0) = length corpus"
    by (simp add: empty_bm25_def)
  from assms f show ?thesis
    using s by (auto simp: BM25Okapi_def initialize_def calc_idf_def Let_def split: if_splits)
qed

lemma score_step_length:
  "length (score_step bm acc q) = min (length acc) (min (length (doc_freqs bm)) (length (doc_len bm)))"
  by (simp add: score_step_def)

lemma get_scores_length:
  assumes "length (doc_freqs bm) = corpus_size bm" "length (doc_len bm) = corpus_size bm"
  shows "length (get_scores bm query) = corpus_size bm"
proof -
  have "length acc = corpus_size bm \<Longrightarrow> length (foldl (score_step bm) acc query) = corpus_size bm"
    for acc
    using assms by (induction query arbitrary: acc) (simp_all add: score_step_length)
  then show ?thesis by (simp add: get_scores_def)
qed

lemma bm25_build_index_ok:
  assumes "fst (bm25_build_index self docs) = Inr ()"
  shows "\<exists>bm. bm25 (snd (bm25_build_index self docs)) = Some bm
              \<and> documents (snd (bm25_build_index self docs)) = docs
              \<and> (\<forall>query. length (get_scores bm query) = length docs)"
proof -
  from assms obtain bm where bm: "BM25Okapi (map (\<lambda>doc. split (lower doc)) docs) = Inr bm"
    by (auto simp: bm25_build_index_def Let_def split: sum.splits)
  from BM25Okapi_sizes [OF bm] have "\<forall>query. length (get_scores bm query) = length docs"
    by (simp add: get_scores_length)
  with bm show ?thesis
    by (simp add: bm25_build_index_def Let_def)
qed

text \<open>
  What a search on a built index returns: the top indices with a positive score, each
  with its document and its score.
\<close>

lemma bm25_search_built:
  assumes "bm25 self = Some bm" "length (get_scores bm (split (lower query))) = length (documents self)"
  shows "snd (bm25_search self query k) =
           Inr (map (\<lambda>i. \<lparr>content = documents self ! i,
                           score = get_scores bm (split (lower query)) ! i, index = i\<rparr>)
                  (filter (\<lambda>i. get_scores bm (split (lower query)) ! i > 0)
                     (top_indices (get_scores bm (split (lower query))) k)))"
proof -
  have "\<forall>i\<in>set (top_indices (get_scores bm (split (lower query))) k). i < length (documents self)"
    using top_indices_set [of "get_scores bm (split (lower query))" k] assms(2) by auto
  then show ?thesis
    using assms(1) by (simp add: bm25_search_def Let_def bm25_results_eq)
qed

lemma bm25_search_positive_descending:
  assumes "fst (bm25_build_index self docs) = Inr ()"
  shows "\<exists>rs. snd (bm25_search (snd (bm25_build_index self docs)) query k) = Inr rs
            \<and> (\<forall>r\<in>set rs. 0 < score r)
            \<and> sorted_wrt (\<ge>) (map score rs)
            \<and> (0 < k \<longrightarrow> length rs \<le> nat k)"
proof -
  from bm25_build_index_ok [OF assms] obtain bm where
    bm: "bm25 (snd (bm25_build_index self docs)) = Some bm"
    and d: "documents (snd (bm25_build_index self docs)) = docs"
    and l: "\<forall>query. length (get_scores bm query) = length docs"
    by blast
  let ?sc = "get_scores bm (split (lower query))"
  let ?top = "top_indices ?sc k"
  have r: "snd (bm25_search (snd (bm25_build_index self docs)) query k) =
     Inr (map (\<lambda>i. \<lparr>content = docs ! i, score = ?sc ! i, index = i\<rparr>) (filter (\<lambda>i. ?sc ! i > 0) ?top))"
    using bm25_search_built [OF bm, of query k] l d by simp
  have "sorted_wrt (\<ge>) (map (\<lambda>i. ?sc ! i) (filter (\<lambda>i. ?sc ! i > 0) ?top))"
    using top_indices_descending [of ?sc k]
    by (simp add: sorted_wrt_map sorted_wrt_filter)
  moreover have "0 < k \<longrightarrow> length (filter (\<lambda>i. ?sc ! i > 0) ?top) \<le> nat k"
  proof
    assume "0 < k"
    then have "length ?top \<le> nat k" by (simp add: top_indices_length)
    then show "length (filter (\<lambda>i. ?sc ! i > 0) ?top) \<le> nat k"
      using length_filter_le [of "\<lambda>i. ?sc ! i > 0" ?top] by linarith
  qed
  ultimately show ?thesis
    by (simp add: r comp_def)
qed

lemma bm25_search_empty_index:
  "corpus_size bm = 0 \<Longrightarrow>
     snd (bm25_search \<lparr>documents = [], bm25 = Some bm, tokenized_docs = []\<rparr> query k) = Inr []"
proof -
  assume z: "corpus_size bm = 0"
  have "foldl (score_step bm) [] q = []" for q
    by (induction q) (simp_all add: score_step_def)
  then have "get_scores bm q = []" for q
    by (simp add: get_scores_def z)
  then show ?thesis
    by (simp add: bm25_search_def Let_def top_indices_def last_k_def argsort_def)
qed

section \<open>Semantic search\<close>

lemma semantic_results_sound:
  "semantic_results docs sims idxs = Inr rs \<Longrightarrow>
     map index rs = idxs
     \<and> (\<forall>r\<in>set rs. index r < length docs \<and> content r = docs ! index r \<and> score r = sims ! index r)"
  by (induction idxs arbitrary: rs) (auto split: if_splits sum.splits)


lemma semantic_build_index_ok:
  assumes "fst (semantic_build_index self docs) = Inr ()"
  shows "\<exists>embed_query. embedding_model (snd (semantic_build_index self docs)) = Some embed_query
            \<and> embedding_model self = Some embed_query
            \<and> s_documents (snd (semantic_build_index self docs)) = docs
            \<and> embeddings (snd (semantic_build_index self docs)) = map embed_query docs"
  using assms
  by (auto simp: semantic_build_index_def Let_def np_array_def no_embedding_model_def
      split: option.splits if_splits)

lemma semantic_search_sound:
  assumes "snd (semantic_search self query k) = Inr rs"
  shows "\<forall>r\<in>set rs. index r < length (s_documents self) \<and> content r = s_documents self ! index r"
  using assms
  by (auto simp: semantic_search_def not_built_def split: if_splits option.splits sum.splits
      dest!: semantic_results_sound)

subsection \<open>The similarity is defined and bounded\<close>

lemma sum_squares_nonneg: "0 \<le> (\<Sum>u\<leftarrow>x. u * u)" for x :: "real list"
  by (induction x) auto

lemma np_norm_nonneg: "0 \<le> np_norm x"
  by (simp add: np_norm_def sum_squares_nonneg)

lemma denominator_positive: "0 < denominator x y"
proof -
  have "0 \<le> np_norm x * np_norm y"
    by (simp add: np_norm_nonneg)
  then show ?thesis
    by (simp add: denominator_def cos_eps_def add_nonneg_pos)
qed

text \<open>The Cauchy-Schwarz inequality for two lists of one length.\<close>

lemma dot_squared_le:
  "length x = length y \<Longrightarrow>
     (\<Sum>(u, v)\<leftarrow>zip x y. u * v)\<^sup>2 \<le> (\<Sum>u\<leftarrow>x. u * u) * (\<Sum>v\<leftarrow>y. v * v)" for x y :: "real list"
proof (induction x y rule: list_induct2)
  case Nil
  then show ?case by simp
next
  case (Cons a x b y)
  define A where "A = (\<Sum>(u, v)\<leftarrow>zip x y. u * v)"
  define B where "B = (\<Sum>u\<leftarrow>x. u * u)"
  define C where "C = (\<Sum>v\<leftarrow>y. v * v)"
  have B: "0 \<le> B" and C: "0 \<le> C"
    by (simp_all add: B_def C_def sum_squares_nonneg)
  have ih: "A\<^sup>2 \<le> B * C"
    using Cons.IH by (simp add: A_def B_def C_def)
  have "\<bar>A\<bar> = sqrt (A\<^sup>2)" by simp
  also have "\<dots> \<le> sqrt (B * C)" using ih by (rule real_sqrt_le_mono)
  finally have absA: "\<bar>A\<bar> \<le> sqrt B * sqrt C" by (simp add: real_sqrt_mult)
  define p where "p = \<bar>a\<bar> * sqrt C"
  define q where "q = \<bar>b\<bar> * sqrt B"
  have "p\<^sup>2 = \<bar>a\<bar>\<^sup>2 * (sqrt C)\<^sup>2" by (simp add: p_def power_mult_distrib)
  also have "\<dots> = a\<^sup>2 * C" using C by simp
  finally have p2: "p\<^sup>2 = a * a * C" by (simp add: power2_eq_square)
  have "q\<^sup>2 = \<bar>b\<bar>\<^sup>2 * (sqrt B)\<^sup>2" by (simp add: q_def power_mult_distrib)
  also have "\<dots> = b\<^sup>2 * B" using B by simp
  finally have q2: "q\<^sup>2 = b * b * B" by (simp add: power2_eq_square)
  have "0 \<le> (p - q)\<^sup>2" by simp
  then have pq: "2 * p * q \<le> a * a * C + b * b * B"
    using p2 q2 by (simp add: power2_diff)
  have "2 * a * b * A \<le> 2 * \<bar>a\<bar> * \<bar>b\<bar> * \<bar>A\<bar>"
    by (metis abs_ge_self abs_mult abs_numeral mult.assoc)
  also have "\<dots> \<le> 2 * \<bar>a\<bar> * \<bar>b\<bar> * (sqrt B * sqrt C)"
    using absA by (simp add: mult_left_mono)
  also have "\<dots> = 2 * p * q" by (simp add: p_def q_def)
  finally have cross: "2 * a * b * A \<le> a * a * C + b * b * B" using pq by simp
  have "(a * b + A)\<^sup>2 = a * a * (b * b) + 2 * a * b * A + A\<^sup>2"
    by (simp add: power2_sum power2_eq_square algebra_simps)
  also have "\<dots> \<le> a * a * (b * b) + (a * a * C + b * b * B) + B * C"
    using cross ih by simp
  also have "\<dots> = (a * a + B) * (b * b + C)"
    by (simp add: algebra_simps)
  finally show ?case
    by (simp add: A_def B_def C_def)
qed

lemma dot_le_norms:
  assumes "length x = length y"
  shows "\<bar>\<Sum>(u, v)\<leftarrow>zip x y. u * v\<bar> \<le> np_norm x * np_norm y"
proof -
  have "\<bar>\<Sum>(u, v)\<leftarrow>zip x y. u * v\<bar> = sqrt ((\<Sum>(u, v)\<leftarrow>zip x y. u * v)\<^sup>2)" by simp
  also have "\<dots> \<le> sqrt ((\<Sum>u\<leftarrow>x. u * u) * (\<Sum>v\<leftarrow>y. v * v))"
    using dot_squared_le [OF assms] by (rule real_sqrt_le_mono)
  finally show ?thesis by (simp add: np_norm_def real_sqrt_mult)
qed

lemma similarity_bounded:
  assumes "similarity x y = Inr s"
  shows "\<bar>s\<bar> \<le> 1"
proof -
  from assms have len: "length x = length y"
    and s: "s = (\<Sum>(u, v)\<leftarrow>zip x y. u * v) / denominator x y"
    by (auto simp: similarity_def np_dot_def split: if_splits)
  have "\<bar>\<Sum>(u, v)\<leftarrow>zip x y. u * v\<bar> \<le> denominator x y"
    using dot_le_norms [OF len] by (simp add: denominator_def cos_eps_def)
  then show ?thesis
    using denominator_positive [of x y] by (simp add: s)
qed

lemma similarities_of_sound:
  "similarities_of q ds = Inr sims \<Longrightarrow>
     length sims = length ds \<and> (\<forall>i<length ds. similarity q (ds ! i) = Inr (sims ! i))"
proof (induction ds arbitrary: sims)
  case Nil
  then show ?case by simp
next
  case (Cons d ds)
  then show ?case
    by (auto split: sum.splits simp: nth_Cons split: nat.splits)
qed




section \<open>Two small corpora\<close>

text \<open>
  The corpus \<^verbatim>\<open>["a", "b", "c"]\<close>, indexed by a fresh \<^verbatim>\<open>BM25Search\<close>: every word is in one
  of three documents of one token, so its idf is \<open>ln (5/2) - ln (3/2)\<close>.
\<close>

lemmas tokenize_defs = split_def lower_def lower_char_def is_space_def

lemma abc_build_index:
  "bm25_build_index bm25_init [''a'', ''b'', ''c''] =
     (Inr (),
      \<lparr>documents = [''a'', ''b'', ''c''],
       bm25 = Some \<lparr>corpus_size = 3, avgdl = 1,
                    doc_freqs = [[(''a'', 1)], [(''b'', 1)], [(''c'', 1)]],
                    idf = [(''a'', ln (5 / 2) - ln (3 / 2)), (''b'', ln (5 / 2) - ln (3 / 2)),
                           (''c'', ln (5 / 2) - ln (3 / 2))],
                    doc_len = [1, 1, 1], average_idf = ln (5 / 2) - ln (3 / 2)\<rparr>,
       tokenized_docs = [[''a''], [''b''], [''c'']]\<rparr>)"
  by (simp add: bm25_build_index_def bm25_init_def tokenize_defs BM25Okapi_def initialize_def
      empty_bm25_def initialize_step_def frequencies_of_def calc_idf_def Let_def)

lemma abc_get_scores:
  "get_scores \<lparr>corpus_size = 3, avgdl = 1,
               doc_freqs = [[(''a'', 1)], [(''b'', 1)], [(''c'', 1)]],
               idf = [(''a'', ln (5 / 2) - ln (3 / 2)), (''b'', ln (5 / 2) - ln (3 / 2)),
                      (''c'', ln (5 / 2) - ln (3 / 2))],
               doc_len = [1, 1, 1], average_idf = ln (5 / 2) - ln (3 / 2)\<rparr> [''a'']
     = [ln (5 / 2) - ln (3 / 2), 0, 0]"
  by (simp add: get_scores_def score_step_def get_or_0_def okapi_k1_def okapi_b_def numeral_3_eq_3)

lemma abc_top_indices:
  "top_indices [ln (5 / 2) - ln (3 / 2), 0, 0] 0 = [0, 2, 1]"
  "top_indices [ln (5 / 2) - ln (3 / 2), 0, 0] 1 = [0]"
  by (simp_all add: top_indices_def last_k_def argsort_def upt_rec numeral_3_eq_3)

lemma abc_search:
  "bm25_search (snd (bm25_build_index bm25_init [''a'', ''b'', ''c''])) ''a'' 0 =
     ([Get_scores [''a'']], Inr [\<lparr>content = ''a'', score = ln (5 / 2) - ln (3 / 2), index = 0\<rparr>])"
  "bm25_search (snd (bm25_build_index bm25_init [''a'', ''b'', ''c''])) ''a'' 1 =
     ([Get_scores [''a'']], Inr [\<lparr>content = ''a'', score = ln (5 / 2) - ln (3 / 2), index = 0\<rparr>])"
  by (simp_all add: abc_build_index bm25_search_def tokenize_defs abc_get_scores [simplified]
      abc_top_indices Let_def)

text \<open>
  The corpus \<^verbatim>\<open>["pos", "neg"]\<close> under an embedding model with vectors of length one:
  \<open>[-1]\<close> for \<^verbatim>\<open>"neg"\<close> and \<open>[1]\<close> for every other text.
\<close>

lemma pos_neg_build_index:
  "semantic_build_index (semantic_init (Some (\<lambda>t. [if t = ''neg'' then - 1 else 1])))
       [''pos'', ''neg''] =
     (Inr (),
      \<lparr>s_documents = [''pos'', ''neg''], embeddings = [[1], [- 1]],
       embedding_model = Some (\<lambda>t. [if t = ''neg'' then - 1 else 1])\<rparr>)"
  by (simp add: semantic_build_index_def semantic_init_def np_array_def Let_def)

lemma pos_neg_similarities:
  "similarities_of [1] [[1], [- 1]] = Inr [1000000000 / 1000000001, - (1000000000 / 1000000001)]"
  by (simp add: similarity_def np_dot_def denominator_def np_norm_def cos_eps_def)

lemma pos_neg_top_indices:
  "top_indices [1000000000 / 1000000001, - (1000000000 / 1000000001)] 0 = [0, 1]"
  "top_indices [1000000000 / 1000000001, - (1000000000 / 1000000001)] 2 = [0, 1]"
  by (simp_all add: top_indices_def last_k_def argsort_def upt_rec numeral_2_eq_2)

lemma pos_neg_search:
  "semantic_search (snd (semantic_build_index
       (semantic_init (Some (\<lambda>t. [if t = ''neg'' then - 1 else 1]))) [''pos'', ''neg''])) ''q'' 0 =
     ([Embed_query ''q''],
      Inr [\<lparr>content = ''pos'', score = 1000000000 / 1000000001, index = 0\<rparr>,
           \<lparr>content = ''neg'', score = - (1000000000 / 1000000001), index = 1\<rparr>])"
  "semantic_search (snd (semantic_build_index
       (semantic_init (Some (\<lambda>t. [if t = ''neg'' then - 1 else 1]))) [''pos'', ''neg''])) ''q'' 2 =
     ([Embed_query ''q''],
      Inr [\<lparr>content = ''pos'', score = 1000000000 / 1000000001, index = 0\<rparr>,
           \<lparr>content = ''neg'', score = - (1000000000 / 1000000001), index = 1\<rparr>])"
  by (simp_all add: pos_neg_build_index semantic_search_def pos_neg_similarities pos_neg_top_indices
      del: similarities_of.simps)

section \<open>The claims about search\<close>

text \<open>
  C1. Positional stability. After a \<^verbatim>\<open>build_index(docs)\<close> that returned, every result of a
  later \<^verbatim>\<open>search\<close> has an \<^verbatim>\<open>index\<close> inside \<open>docs\<close> and its \<^verbatim>\<open>content\<close> is the document of
  \<open>docs\<close> at that index. For \<^verbatim>\<open>BM25Search\<close> the search also returns (it does not raise);
  \<^verbatim>\<open>SemanticSearch.search\<close> can raise, and the property is about the results it returns.
\<close>

theorem index_positionally_stable:
  "(fst (bm25_build_index self docs) = Inr () \<longrightarrow>
      (\<exists>rs. snd (bm25_search (snd (bm25_build_index self docs)) query k) = Inr rs
         \<and> (\<forall>r\<in>set rs. index r < length docs \<and> content r = docs ! index r)))
   \<and> (fst (semantic_build_index sself sdocs) = Inr () \<longrightarrow>
        snd (semantic_search (snd (semantic_build_index sself sdocs)) squery sk) = Inr srs \<longrightarrow>
          (\<forall>r\<in>set srs. index r < length sdocs \<and> content r = sdocs ! index r))"
proof (intro conjI impI)
  assume b: "fst (bm25_build_index self docs) = Inr ()"
  from bm25_build_index_ok [OF b] obtain bm where
    bm: "bm25 (snd (bm25_build_index self docs)) = Some bm"
    and d: "documents (snd (bm25_build_index self docs)) = docs"
    and l: "\<forall>query. length (get_scores bm query) = length docs"
    by blast
  let ?sc = "get_scores bm (split (lower query))"
  have r: "snd (bm25_search (snd (bm25_build_index self docs)) query k) =
     Inr (map (\<lambda>i. \<lparr>content = docs ! i, score = ?sc ! i, index = i\<rparr>)
            (filter (\<lambda>i. ?sc ! i > 0) (top_indices ?sc k)))"
    using bm25_search_built [OF bm, of query k] l d by simp
  have "\<forall>i\<in>set (top_indices ?sc k). i < length docs"
    using top_indices_set [of ?sc k] l by auto
  then show "\<exists>rs. snd (bm25_search (snd (bm25_build_index self docs)) query k) = Inr rs
         \<and> (\<forall>r\<in>set rs. index r < length docs \<and> content r = docs ! index r)"
    unfolding r by auto
next
  assume b: "fst (semantic_build_index sself sdocs) = Inr ()"
    and s: "snd (semantic_search (snd (semantic_build_index sself sdocs)) squery sk) = Inr srs"
  from semantic_build_index_ok [OF b]
  have "s_documents (snd (semantic_build_index sself sdocs)) = sdocs" by blast
  with semantic_search_sound [OF s]
  show "\<forall>r\<in>set srs. index r < length sdocs \<and> content r = sdocs ! index r" by simp
qed

theorem index_positionally_stable_witness:
  "fst (bm25_build_index bm25_init [''a'', ''b'', ''c'']) = Inr ()
   \<and> (\<exists>rs. snd (bm25_search (snd (bm25_build_index bm25_init [''a'', ''b'', ''c''])) ''a'' 1) = Inr rs
         \<and> rs \<noteq> []
         \<and> (\<forall>r\<in>set rs. index r < length [''a'', ''b'', ''c''] \<and> content r = [''a'', ''b'', ''c''] ! index r))
   \<and> fst (semantic_build_index (semantic_init (Some (\<lambda>t. [if t = ''neg'' then - 1 else 1])))
            [''pos'', ''neg'']) = Inr ()
   \<and> (\<exists>rs. snd (semantic_search (snd (semantic_build_index
                 (semantic_init (Some (\<lambda>t. [if t = ''neg'' then - 1 else 1]))) [''pos'', ''neg'']))
               ''q'' 2) = Inr rs
         \<and> rs \<noteq> []
         \<and> (\<forall>r\<in>set rs. index r < length [''pos'', ''neg''] \<and> content r = [''pos'', ''neg''] ! index r))"
proof -
  let ?S = "semantic_init (Some (\<lambda>t. [if t = ''neg'' then - 1 else 1 :: real]))"
  let ?rs = "[\<lparr>content = ''pos'', score = 1000000000 / 1000000001, index = 0\<rparr>,
              \<lparr>content = ''neg'', score = - (1000000000 / 1000000001), index = 1\<rparr>]"
  have h1: "fst (bm25_build_index bm25_init [''a'', ''b'', ''c'']) = Inr ()"
    by (simp add: abc_build_index)
  have h2: "fst (semantic_build_index ?S [''pos'', ''neg'']) = Inr ()"
    by (simp add: pos_neg_build_index)
  have h3: "snd (semantic_search (snd (semantic_build_index ?S [''pos'', ''neg''])) ''q'' 2) = Inr ?rs"
    by (simp add: pos_neg_search)
  note t = index_positionally_stable [of bm25_init "[''a'', ''b'', ''c'']" "''a''" 1 ?S "[''pos'', ''neg'']" "''q''" 2 ?rs]
  from t h1 have c1: "\<exists>rs. snd (bm25_search (snd (bm25_build_index bm25_init [''a'', ''b'', ''c''])) ''a'' 1) = Inr rs
         \<and> (\<forall>r\<in>set rs. index r < length [''a'', ''b'', ''c''] \<and> content r = [''a'', ''b'', ''c''] ! index r)"
    by blast
  have c1': "\<exists>rs. snd (bm25_search (snd (bm25_build_index bm25_init [''a'', ''b'', ''c''])) ''a'' 1) = Inr rs
         \<and> rs \<noteq> []
         \<and> (\<forall>r\<in>set rs. index r < length [''a'', ''b'', ''c''] \<and> content r = [''a'', ''b'', ''c''] ! index r)"
    using c1 by (auto simp: abc_search)
  from index_positionally_stable [of bm25_init "[''a'', ''b'', ''c'']" "''a''" 1 ?S "[''pos'', ''neg'']" "''q''" 2 ?rs] h2 h3
  have c2: "\<forall>r\<in>set ?rs. index r < length [''pos'', ''neg''] \<and> content r = [''pos'', ''neg''] ! index r"
    by blast
  have c2': "\<exists>rs. snd (semantic_search (snd (semantic_build_index ?S [''pos'', ''neg''])) ''q'' 2) = Inr rs
         \<and> rs \<noteq> []
         \<and> (\<forall>r\<in>set rs. index r < length [''pos'', ''neg''] \<and> content r = [''pos'', ''neg''] ! index r)"
    using h3 c2 by blast
  show ?thesis using h1 c1' h2 c2' by blast
qed

text \<open>
  C3: the results of \<^verbatim>\<open>BM25Search.search\<close> have positive scores in non-increasing order
  (lemma \<open>bm25_search_positive_descending\<close>), but "at most \<open>k\<close> results" fails for \<open>k = 0\<close>:
  the slice \<^verbatim>\<open>[-k:]\<close> is then the whole list. On the corpus \<^verbatim>\<open>["a", "b", "c"]\<close> the
  query \<^verbatim>\<open>"a"\<close> with \<open>k = 0\<close> returns one result.
\<close>

theorem bm25_search_k_zero:
  "fst (bm25_build_index bm25_init [''a'', ''b'', ''c'']) = Inr ()
   \<and> snd (bm25_search (snd (bm25_build_index bm25_init [''a'', ''b'', ''c''])) ''a'' 0) =
       Inr [\<lparr>content = ''a'', score = ln (5 / 2) - ln (3 / 2), index = 0\<rparr>]
   \<and> \<not> length [\<lparr>content = ''a'', score = ln (5 / 2) - ln (3 / 2), index = 0\<rparr>] \<le> nat 0"
  using abc_build_index abc_search(1) by simp




text \<open>
  The similarity in exact arithmetic. The denominator, the product of the two norms plus
  \<open>10\<^sup>-\<^sup>9\<close>, is positive for every pair of vectors, also for vectors of zeros. For two
  vectors of one length the similarity is defined and lies between \<open>-1 - \<epsilon>\<close> and
  \<open>1 + \<epsilon>\<close>, and so does every score of a search. This is a fact about real numbers.
  It says nothing about the 64-bit floats that the program computes with, where a square
  can overflow or underflow to zero; claim C5 is about those and is not settled by it.
\<close>

lemma similarity_exact_bounded:
  "0 < denominator x y
   \<and> (length x = length y \<longrightarrow>
        (\<exists>s. similarity x y = Inr s \<and> - 1 - cos_eps \<le> s \<and> s \<le> 1 + cos_eps))
   \<and> (snd (semantic_search self query k) = Inr rs \<longrightarrow>
        (\<forall>r\<in>set rs. - 1 - cos_eps \<le> score r \<and> score r \<le> 1 + cos_eps))"
proof (intro conjI impI)
  show "0 < denominator x y" by (rule denominator_positive)
next
  assume len: "length x = length y"
  then obtain s where s: "similarity x y = Inr s"
    by (auto simp: similarity_def np_dot_def)
  from similarity_bounded [OF s] have "- 1 - cos_eps \<le> s \<and> s \<le> 1 + cos_eps"
    by (auto simp: cos_eps_def)
  with s show "\<exists>s. similarity x y = Inr s \<and> - 1 - cos_eps \<le> s \<and> s \<le> 1 + cos_eps"
    by blast
next
  assume res: "snd (semantic_search self query k) = Inr rs"
  show "\<forall>r\<in>set rs. - 1 - cos_eps \<le> score r \<and> score r \<le> 1 + cos_eps"
  proof
    fix r
    assume r: "r \<in> set rs"
    from res obtain embed_query sims where
      sims: "similarities_of (embed_query query) (embeddings self) = Inr sims"
      and rs: "semantic_results (s_documents self) sims (top_indices sims k) = Inr rs"
      by (auto simp: semantic_search_def split: if_splits option.splits sum.splits)
    have "index r \<in> set (map index rs)" using r by simp
    with semantic_results_sound [OF rs] r
    have idx: "index r \<in> set (top_indices sims k)" and sc: "score r = sims ! index r"
      by simp_all
    from similarities_of_sound [OF sims]
    have len: "length sims = length (embeddings self)"
      and sim: "\<forall>i<length (embeddings self). similarity (embed_query query) (embeddings self ! i) = Inr (sims ! i)"
      by simp_all
    from idx top_indices_set [of sims k] len have "index r < length (embeddings self)"
      by auto
    with sim have "similarity (embed_query query) (embeddings self ! index r) = Inr (score r)"
      by (simp add: sc)
    from similarity_bounded [OF this]
    show "- 1 - cos_eps \<le> score r \<and> score r \<le> 1 + cos_eps"
      by (auto simp: cos_eps_def)
  qed
qed

section \<open>Properties of the class pattern\<close>

lemma space_not_word: "is_space c \<Longrightarrow> \<not> is_word c"
  by (auto simp: is_space_def is_word_def Let_def)

lemma newline_space [simp]: "is_space newline"
  by (simp add: is_space_def newline_def)

lemma newline_not_word [simp]: "\<not> is_word newline"
  by (simp add: space_not_word)

lemma class_chars [simp]:
  "\<not> is_space CHR ''c''" "\<not> is_space CHR '':''" "\<not> is_word CHR ''(''"
  "newline \<notin> set ''class''" "newline \<notin> set ''(Base):''"
  by (simp_all add: is_space_def is_word_def newline_def)

lemma lit_eq: "lit p s = Some r \<longleftrightarrow> s = p @ r"
  by (induction p s rule: lit.induct) auto

lemma takeWhile_dropWhile_stop:
  "\<not> P c \<Longrightarrow> takeWhile P (x @ c # t) = takeWhile P x
                \<and> dropWhile P (x @ c # t) = dropWhile P x @ c # t"
  by (induction x) auto

lemma takeWhile_dropWhile_inside:
  "dropWhile P x \<noteq> [] \<Longrightarrow> takeWhile P (x @ y) = takeWhile P x
                           \<and> dropWhile P (x @ y) = dropWhile P x @ y"
  by (induction x) auto

lemma plus_class_eq:
  "plus_class P s = Some r \<longleftrightarrow> (\<exists>run. run \<noteq> [] \<and> (\<forall>c\<in>set run. P c) \<and> s = run @ r
                                   \<and> (r = [] \<or> \<not> P (hd r)))"
proof
  assume "plus_class P s = Some r"
  then have ne: "takeWhile P s \<noteq> []" and r: "r = dropWhile P s"
    by (auto simp: plus_class_def split: if_splits)
  have "s = takeWhile P s @ r" by (simp add: r)
  moreover have "\<forall>c\<in>set (takeWhile P s). P c" by (auto dest: set_takeWhileD)
  moreover have "r = [] \<or> \<not> P (hd r)" using hd_dropWhile [of P s] r by auto
  ultimately show "\<exists>run. run \<noteq> [] \<and> (\<forall>c\<in>set run. P c) \<and> s = run @ r \<and> (r = [] \<or> \<not> P (hd r))"
    using ne by blast
next
  assume "\<exists>run. run \<noteq> [] \<and> (\<forall>c\<in>set run. P c) \<and> s = run @ r \<and> (r = [] \<or> \<not> P (hd r))"
  then obtain run where run: "run \<noteq> []" "\<forall>c\<in>set run. P c" "s = run @ r" "r = [] \<or> \<not> P (hd r)"
    by blast
  have "takeWhile P s = run \<and> dropWhile P s = r"
  proof (cases r)
    case Nil
    with run show ?thesis by simp
  next
    case (Cons a r')
    with run have "\<not> P a" by simp
    with run Cons show ?thesis
      by (simp add: takeWhile_append2 dropWhile_append2)
  qed
  with run(1) show "plus_class P s = Some r" by (simp add: plus_class_def)
qed

text \<open>A match of the entity header, spelled out.\<close>

lemma class_header_eq:
  "class_header s = Some r \<longleftrightarrow>
     (\<exists>sp w. sp \<noteq> [] \<and> (\<forall>c\<in>set sp. is_space c) \<and> w \<noteq> [] \<and> (\<forall>c\<in>set w. is_word c)
            \<and> s = ''class'' @ sp @ w @ ''(Base):'' @ r)"
proof
  assume "class_header s = Some r"
  then obtain s1 s2 s3 where
    "lit ''class'' s = Some s1" "plus_class is_space s1 = Some s2"
    "plus_class is_word s2 = Some s3" "lit ''(Base):'' s3 = Some r"
    by (auto simp: class_header_def split: bind_splits)
  then show "\<exists>sp w. sp \<noteq> [] \<and> (\<forall>c\<in>set sp. is_space c) \<and> w \<noteq> [] \<and> (\<forall>c\<in>set w. is_word c)
            \<and> s = ''class'' @ sp @ w @ ''(Base):'' @ r"
    unfolding lit_eq plus_class_eq by (metis append.assoc)
next
  assume "\<exists>sp w. sp \<noteq> [] \<and> (\<forall>c\<in>set sp. is_space c) \<and> w \<noteq> [] \<and> (\<forall>c\<in>set w. is_word c)
            \<and> s = ''class'' @ sp @ w @ ''(Base):'' @ r"
  then obtain sp w where sp: "sp \<noteq> []" "\<forall>c\<in>set sp. is_space c"
    and w: "w \<noteq> []" "\<forall>c\<in>set w. is_word c"
    and s: "s = ''class'' @ sp @ w @ ''(Base):'' @ r"
    by blast
  have 1: "lit ''class'' s = Some (sp @ w @ ''(Base):'' @ r)"
    by (simp add: lit_eq s)
  have "\<not> is_space (hd (w @ ''(Base):'' @ r))"
    using w by (cases w) (auto dest: space_not_word)
  then have 2: "plus_class is_space (sp @ w @ ''(Base):'' @ r) = Some (w @ ''(Base):'' @ r)"
    unfolding plus_class_eq using sp by blast
  have "\<not> is_word (hd (''(Base):'' @ r))" by simp
  then have 3: "plus_class is_word (w @ ''(Base):'' @ r) = Some (''(Base):'' @ r)"
    unfolding plus_class_eq using w by blast
  have 4: "lit ''(Base):'' (''(Base):'' @ r) = Some r"
    by (simp only: lit_eq)
  show "class_header s = Some r"
    by (simp only: class_header_def 1 2 3 4 Option.bind.simps)
qed

lemma class_header_extend: "class_header s = Some r \<Longrightarrow> class_header (s @ x) = Some (r @ x)"
  unfolding class_header_eq by auto

lemma class_header_restrict: "class_header (h @ r) = Some r \<Longrightarrow> class_header (h @ y) = Some y"
  unfolding class_header_eq by auto

lemma class_header_starts:
  "class_header s = Some r \<Longrightarrow> \<exists>h. s = ''class'' @ h @ r \<and> h \<noteq> [] \<and> last h = CHR '':''"
  unfolding class_header_eq by auto

lemma lit_before:
  "lit p (x @ c # t) = Some s \<Longrightarrow> c \<notin> set p \<Longrightarrow> \<exists>x1. lit p x = Some x1 \<and> s = x1 @ c # t"
proof (induction p x rule: lit.induct)
  case (1 s0)
  then show ?case by simp
next
  case (2 p ps)
  then show ?case by (auto split: if_splits)
next
  case (3 p ps a x)
  then show ?case by (auto split: if_splits)
qed

lemma class_header_not_newline [simp]: "class_header (newline # t) = None"
proof (cases "class_header (newline # t)")
  case None
  then show ?thesis .
next
  case (Some r)
  then have False unfolding class_header_eq by (auto simp: newline_def)
  then show ?thesis ..
qed

text \<open>
  A header that starts in a text \<open>x\<close> without white space at its end, and is followed by a
  line break and another header, ends inside \<open>x\<close>.
\<close>

lemma class_header_inside:
  assumes x: "x = [] \<or> \<not> is_space (last x)"
      and t: "class_header t \<noteq> None"
      and m: "class_header (x @ newline # t) = Some r"
  shows "\<exists>r0. class_header x = Some r0"
proof -
  from m obtain s1 s2 s3 where
    l1: "lit ''class'' (x @ newline # t) = Some s1" and p1: "plus_class is_space s1 = Some s2"
    and p2: "plus_class is_word s2 = Some s3" and l2: "lit ''(Base):'' s3 = Some r"
    by (auto simp: class_header_def split: bind_splits)
  from lit_before [OF l1 class_chars(4)]
  obtain x1 where x1: "lit ''class'' x = Some x1" and s1: "s1 = x1 @ newline # t"
    by blast
  from x1 have xx: "x = ''class'' @ x1" by (simp only: lit_eq)
  show ?thesis
  proof (cases "dropWhile is_space x1 = []")
    case True
    then have all: "\<forall>c\<in>set x1. is_space c"
      by (metis dropWhile_eq_Nil_conv)
    have "x1 = []"
    proof (rule ccontr)
      assume ne: "x1 \<noteq> []"
      then have "last x = last x1" by (simp add: xx)
      with ne all have "is_space (last x)" by simp
      with x xx show False by simp
    qed
    from t obtain y where "class_header t = Some y" by auto
    then obtain sp w r2 where sp: "sp \<noteq> []" "\<forall>c\<in>set sp. is_space c"
      and tt: "t = ''class'' @ sp @ w @ ''(Base):'' @ r2"
      using class_header_eq [of t y] by blast
    have "takeWhile is_space (newline # t) = [newline]" "dropWhile is_space (newline # t) = t"
      by (simp_all add: tt)
    with p1 have s2: "s2 = t"
      by (simp add: s1 \<open>x1 = []\<close> plus_class_def)
    have w5: "\<forall>c\<in>set ''class''. is_word c" by (simp add: is_word_def)
    have "\<not> is_word (hd (sp @ w @ ''(Base):'' @ r2))"
      using sp by (cases sp) (auto dest: space_not_word)
    then have "plus_class is_word t = Some (sp @ w @ ''(Base):'' @ r2)"
      unfolding plus_class_eq tt using w5 by blast
    with p2 s2 have "s3 = sp @ w @ ''(Base):'' @ r2" by simp
    with l2 have "sp @ w @ ''(Base):'' @ r2 = ''(Base):'' @ r" by (simp only: lit_eq)
    then have "hd sp = CHR ''(''" using sp by (cases sp) auto
    with sp have "is_space CHR ''(''" by (cases sp) auto
    then have False by (simp add: is_space_def)
    then show ?thesis ..
  next
    case False
    from takeWhile_dropWhile_inside [OF False, of "newline # t"] p1
    have q1: "plus_class is_space x1 = Some (dropWhile is_space x1)"
      and s2: "s2 = dropWhile is_space x1 @ newline # t"
      by (auto simp: plus_class_def s1 split: if_splits)
    let ?y = "dropWhile is_space x1"
    from takeWhile_dropWhile_stop [of is_word newline ?y t] p2
    have q2: "plus_class is_word ?y = Some (dropWhile is_word ?y)"
      and s3: "s3 = dropWhile is_word ?y @ newline # t"
      by (auto simp: plus_class_def s2 split: if_splits)
    from l2 have "lit ''(Base):'' (dropWhile is_word ?y @ newline # t) = Some r"
      by (simp only: s3)
    from lit_before [OF this class_chars(5)]
    obtain z where q3: "lit ''(Base):'' (dropWhile is_word ?y) = Some z"
      by blast
    have "class_header x = Some z"
      by (simp only: class_header_def x1 q1 q2 q3 Option.bind.simps)
    then show ?thesis by blast
  qed
qed

text \<open>
  Where the lookahead holds in front of a text that satisfies it, it holds in front of
  every text, if only the part before does not end in white space.
\<close>

lemma lookahead_inside:
  assumes "v \<noteq> []" "\<not> is_space (last v)" "lookahead r" "lookahead (v @ r)"
  shows "lookahead (v @ y)"
proof -
  from assms(1) obtain a x where v: "v = a # x" by (cases v) auto
  from assms(4) have a: "a = newline" and h: "class_header (x @ r) \<noteq> None"
    by (simp_all add: v)
  have x: "x = [] \<or> \<not> is_space (last x)"
    using assms(2) by (auto simp: v split: if_splits)
  have "\<exists>r0. class_header x = Some r0"
  proof (cases r)
    case Nil
    with h show ?thesis by auto
  next
    case (Cons c t)
    with assms(3) have "c = newline" "class_header t \<noteq> None" by simp_all
    with class_header_inside [OF x, of t] h Cons show ?thesis by auto
  qed
  then obtain r0 where "class_header x = Some r0" by blast
  from class_header_extend [OF this, of y] show ?thesis
    by (simp add: v a)
qed

lemma lazy_body_sound:
  "lazy_body s = (b, r) \<Longrightarrow>
     s = b @ r \<and> lookahead r \<and> (\<forall>u v. b = u @ v \<longrightarrow> v \<noteq> [] \<longrightarrow> \<not> lookahead (v @ r))"
proof (induction s arbitrary: b r)
  case Nil
  then show ?case by simp
next
  case (Cons c cs)
  show ?case
  proof (cases "lookahead (c # cs)")
    case True
    with Cons.prems have "b = []" "r = c # cs" by simp_all
    with True show ?thesis by simp
  next
    case False
    with Cons.prems obtain b' where l: "lazy_body cs = (b', r)" and b: "b = c # b'"
      by (auto split: prod.splits)
    from Cons.IH [OF l] have ih: "cs = b' @ r" "lookahead r"
      "\<forall>u v. b' = u @ v \<longrightarrow> v \<noteq> [] \<longrightarrow> \<not> lookahead (v @ r)"
      by simp_all
    have "\<not> lookahead (v @ r)" if uv: "b = u @ v" and v: "v \<noteq> []" for u v
    proof (cases u)
      case Nil
      with uv b ih(1) have "v @ r = c # cs" by simp
      with False show ?thesis by simp
    next
      case (Cons a u')
      with uv b have "b' = u' @ v" by simp
      with ih(3) v show ?thesis by blast
    qed
    with ih b show ?thesis by simp
  qed
qed

lemma lazy_body_eq:
  "lookahead r \<Longrightarrow> (\<forall>u v. b = u @ v \<longrightarrow> v \<noteq> [] \<longrightarrow> \<not> lookahead (v @ r)) \<Longrightarrow>
     lazy_body (b @ r) = (b, r)"
proof (induction b)
  case Nil
  then show ?case by (cases r) simp_all
next
  case (Cons c b)
  from Cons.prems(2) have "\<not> lookahead ((c # b) @ r)" by blast
  moreover have "\<forall>u v. b = u @ v \<longrightarrow> v \<noteq> [] \<longrightarrow> \<not> lookahead (v @ r)"
    using Cons.prems(2) by (metis append_Cons)
  ultimately show ?case using Cons.IH [OF Cons.prems(1)] by simp
qed

section \<open>Chunks without a size limit\<close>

lemma chunk_unset:
  "max_chunk_size = None \<or> max_chunk_size = Some 0 \<Longrightarrow>
     chunk max_chunk_size text = map strip (findall text)"
proof -
  assume "max_chunk_size = None \<or> max_chunk_size = Some 0"
  then have "chunk_block max_chunk_size = (\<lambda>block. [strip block])"
    by (auto simp: chunk_block_def fun_eq_iff)
  then show ?thesis
    by (simp add: chunk_def)
qed

lemma strip_fixed:
  "s = [] \<or> (\<not> is_space (hd s) \<and> \<not> is_space (last s)) \<Longrightarrow> strip s = s"
proof (cases s)
  case Nil
  then show ?thesis by (simp add: strip_def)
next
  case (Cons a s')
  assume "s = [] \<or> (\<not> is_space (hd s) \<and> \<not> is_space (last s))"
  with Cons have a: "\<not> is_space a" and l: "\<not> is_space (last s)" by simp_all
  have "rev s \<noteq> []" "hd (rev s) = last s" using Cons by (simp_all add: hd_rev)
  with l have "dropWhile is_space (rev s) = rev s" by (simp only: dropWhile_eq_self_iff) simp
  with a Cons show ?thesis by (simp add: strip_def)
qed

text \<open>A block starts with a header; stripping it removes white space at its end only.\<close>

lemma strip_block:
  assumes "class_header (h @ b) = Some b"
  shows "strip (h @ b) = h @ rev (dropWhile is_space (rev b))"
    and "\<not> is_space (last (h @ rev (dropWhile is_space (rev b))))"
proof -
  from class_header_starts [OF assms] obtain h' where
    h: "h = ''class'' @ h'" and h': "h' \<noteq> []" "last h' = CHR '':''"
    by auto
  have lh: "h \<noteq> []" "last h = CHR '':''" using h h' by simp_all
  have 1: "dropWhile is_space (h @ b) = h @ b" by (simp add: h)
  have 2: "dropWhile is_space (rev b @ rev h) = dropWhile is_space (rev b) @ rev h"
  proof (cases "dropWhile is_space (rev b) = []")
    case True
    then have all: "\<forall>c\<in>set (rev b). is_space c" by (metis dropWhile_eq_Nil_conv)
    have "rev h \<noteq> []" "hd (rev h) = CHR '':''" using lh by (simp_all add: hd_rev)
    then have "dropWhile is_space (rev h) = rev h"
      by (simp only: dropWhile_eq_self_iff) simp
    moreover have "dropWhile is_space (rev b @ rev h) = dropWhile is_space (rev h)"
      using all by (intro dropWhile_append2) blast
    ultimately show ?thesis by (simp only: True append_Nil)
  next
    case False
    then show ?thesis by (simp add: takeWhile_dropWhile_inside)
  qed
  show "strip (h @ b) = h @ rev (dropWhile is_space (rev b))"
    by (simp add: strip_def 1 2)
  show "\<not> is_space (last (h @ rev (dropWhile is_space (rev b))))"
  proof (cases "dropWhile is_space (rev b) = []")
    case True
    with lh show ?thesis by simp
  next
    case False
    then have "\<not> is_space (hd (dropWhile is_space (rev b)))" by (rule hd_dropWhile)
    with False show ?thesis by (simp add: last_rev)
  qed
qed

lemma class_match_good:
  assumes "class_match s = Some (block, rest)"
  shows "good (strip block)"
proof -
  from assms obtain rest0 b where
    hd: "class_header s = Some rest0" and lb: "lazy_body rest0 = (b, rest)"
    and block: "block = take (length s - length rest0) s @ b"
    by (auto simp: class_match_def split: option.splits prod.splits)
  from class_header_starts [OF hd] obtain h where s: "s = h @ rest0"
    by (metis append.assoc)
  from lazy_body_sound [OF lb] have r0: "rest0 = b @ rest" and la: "lookahead rest"
    and least: "\<forall>u v. b = u @ v \<longrightarrow> v \<noteq> [] \<longrightarrow> \<not> lookahead (v @ rest)"
    by simp_all
  have bl: "block = h @ b" by (simp add: block s)
  have hb: "class_header (h @ b) = Some b"
    using hd class_header_restrict [of h rest0 b] by (simp add: s)
  let ?b0 = "rev (dropWhile is_space (rev b))"
  let ?wt = "rev (takeWhile is_space (rev b))"
  have split: "b = ?b0 @ ?wt"
    by (metis rev_append rev_rev_ident takeWhile_dropWhile_id)
  have st: "strip block = h @ ?b0" and nl: "\<not> is_space (last (h @ ?b0))"
    using strip_block [OF hb] by (simp_all add: bl)
  have hb0: "class_header (h @ ?b0) = Some ?b0"
    using hb by (rule class_header_restrict)
  have "\<not> lookahead (v @ r)" if uv: "?b0 = u @ v" and v: "v \<noteq> []" and r: "lookahead r" for u v r
  proof
    assume l: "lookahead (v @ r)"
    have "last v = last (h @ ?b0)" using uv v by simp
    with nl have "\<not> is_space (last v)" by simp
    from lookahead_inside [OF v this r l, of "?wt @ rest"]
    have "lookahead ((v @ ?wt) @ rest)" by simp
    moreover have "b = u @ (v @ ?wt)" using split uv by simp
    ultimately show False using least v by blast
  qed
  with hb0 nl show ?thesis
    unfolding good_def st by blast
qed

lemma findall_good: "c \<in> set (findall s) \<Longrightarrow> good (strip c)"
proof (induction s arbitrary: c rule: findall.induct)
  case 1
  then show ?case by simp
next
  case (2 a cs)
  show ?case
  proof (cases "class_match (a # cs)")
    case None
    with 2 show ?thesis by simp
  next
    case (Some m)
    obtain block rest where m: "m = (block, rest)" by (cases m)
    with 2 Some class_match_good [of "a # cs" block rest] show ?thesis by auto
  qed
qed

lemma good_strip: "good c \<Longrightarrow> strip c = c"
proof -
  assume g: "good c"
  then obtain b where h: "class_header c = Some b" and l: "\<not> is_space (last c)"
    unfolding good_def by blast
  from class_header_starts [OF h] have "hd c = CHR ''c''" by auto
  with l show ?thesis by (intro strip_fixed) simp
qed

text \<open>A good chunk in front of a text that satisfies the lookahead is the next match.\<close>

lemma findall_good_append:
  assumes g: "good c" and r: "lookahead r"
  shows "findall (c @ r) = c # findall r"
proof -
  from g obtain b where h: "class_header c = Some b"
    and least: "\<forall>u v r. b = u @ v \<longrightarrow> v \<noteq> [] \<longrightarrow> lookahead r \<longrightarrow> \<not> lookahead (v @ r)"
    unfolding good_def by blast
  from class_header_starts [OF h] obtain h0 where c: "c = h0 @ b" and ne: "h0 \<noteq> []"
    by (metis append.assoc append_is_Nil_conv list.distinct(1))
  have "lazy_body (b @ r) = (b, r)"
    using r least by (intro lazy_body_eq) blast+
  moreover have "class_header (c @ r) = Some (b @ r)"
    using h by (rule class_header_extend)
  ultimately have m: "class_match (c @ r) = Some (c, r)"
    by (simp add: class_match_def c)
  from ne obtain a cs where "c @ r = a # cs" by (cases h0) (auto simp: c)
  with m show ?thesis by (metis findall.simps(2) option.simps(5) prod.simps(2))
qed

lemma join_Cons: "join (c # cs) = c @ (if cs = [] then [] else newline # join cs)"
  by (cases cs) simp_all

lemma findall_join: "list_all good cs \<Longrightarrow> findall (join cs) = cs"
proof (induction cs)
  case Nil
  then show ?case by simp
next
  case (Cons c cs)
  then have g: "good c" and ih: "findall (join cs) = cs" by simp_all
  show ?case
  proof (cases cs)
    case Nil
    with findall_good_append [OF g, of "[]"] show ?thesis by simp
  next
    case (Cons c' cs')
    with Cons.prems have "good c'" by simp
    then obtain b' where "class_header c' = Some b'" unfolding good_def by blast
    from class_header_extend [OF this] have "class_header (join cs) \<noteq> None"
      by (simp add: Cons join_Cons)
    then have la: "lookahead (newline # join cs)" by simp
    have "findall (newline # join cs) = findall (join cs)"
      by (simp add: class_match_def)
    with findall_good_append [OF g la] ih show ?thesis
      by (simp add: Cons join_Cons)
  qed
qed

lemma chunk_unset_idempotent:
  assumes "max_chunk_size = None \<or> max_chunk_size = Some 0"
  shows "chunk max_chunk_size (join (chunk max_chunk_size text)) = chunk max_chunk_size text"
proof -
  let ?cs = "map strip (findall text)"
  have g: "list_all good ?cs"
    by (simp add: list_all_iff findall_good)
  have "map strip ?cs = ?cs"
    using g by (simp add: list_all_iff good_strip)
  with findall_join [OF g] show ?thesis
    by (simp add: chunk_unset [OF assms])
qed

section \<open>Splitting a large block: the packing\<close>

lemma re_split_from_not_Nil: "re_split_from acc s \<noteq> []"
  by (induction acc s rule: re_split_from.induct) auto

lemma re_split_not_Nil: "re_split s \<noteq> []"
  by (simp add: re_split_def re_split_from_not_Nil)

lemma re_split_from_prefix: "prefix acc (hd (re_split_from acc s))"
  by (induction acc s rule: re_split_from.induct) (auto dest: append_prefixD)

lemma re_split_from_step:
  "c \<noteq> newline \<Longrightarrow> re_split_from acc (c # cs) = re_split_from (acc @ [c]) cs"
  by (cases "(acc, c # cs)" rule: re_split_from.cases) auto

lemma re_split_class: "prefix ''class'' (hd (re_split (''class'' @ s)))"
proof -
  have "re_split (''class'' @ s) = re_split_from ''class'' s"
    by (simp add: re_split_def re_split_from_step newline_def)
  then show ?thesis by (simp only: re_split_from_prefix)
qed

lemma pack_groups:
  "pack m header sub_chunks (header # current) members =
     sub_chunks @ map (\<lambda>g. join (header # g)) (greedy_groups m header current members)"
  by (induction members arbitrary: sub_chunks current) simp_all





lemma prefix_join: "prefix header (join (header # g))"
  by (simp add: join_Cons)

text \<open>What \<^const>\<open>split_large_block\<close> returns, in terms of the groups.\<close>

lemma split_large_block_groups:
  assumes "re_split block = header # members"
  shows "split_large_block m block =
           map (\<lambda>g. join (header # g)) (greedy_groups m header [] members)"
  using assms by (simp add: split_large_block_def pack_groups)

section \<open>The claims about the chunker\<close>

lemma findall_skip:
  "\<forall>i<length pre. class_header (drop i (pre @ s)) = None \<Longrightarrow> findall (pre @ s) = findall s"
proof (induction pre)
  case Nil
  then show ?case by simp
next
  case (Cons a pre)
  from Cons.prems have "class_header (drop 0 ((a # pre) @ s)) = None" by blast
  then have m: "class_match (a # pre @ s) = None" by (simp add: class_match_def)
  have "\<forall>i<length pre. class_header (drop i (pre @ s)) = None"
  proof (intro allI impI)
    fix i
    assume "i < length pre"
    then have "Suc i < length (a # pre)" by simp
    with Cons.prems have "class_header (drop (Suc i) ((a # pre) @ s)) = None" by blast
    then show "class_header (drop i (pre @ s)) = None" by simp
  qed
  with Cons.IH m show ?case by simp
qed

lemma chunk_starts_class:
  assumes "c \<in> set (chunk max_chunk_size s)"
  shows "prefix ''class'' c"
proof -
  from assms obtain block where b: "block \<in> set (findall s)"
    and c: "c \<in> set (chunk_block max_chunk_size block)"
    by (auto simp: chunk_def)
  from findall_good [OF b] obtain r where "class_header (strip block) = Some r"
    unfolding good_def by blast
  from class_header_starts [OF this] obtain h where st: "strip block = ''class'' @ (h @ r)"
    by auto
  show ?thesis
  proof (cases "c = strip block")
    case True
    then show ?thesis by (simp add: st)
  next
    case False
    with c obtain m where cs: "c \<in> set (split_large_block m (strip block))"
      by (auto simp: chunk_block_def Let_def split: option.splits if_splits)
    obtain header members where rs: "re_split (strip block) = header # members"
      using re_split_not_Nil [of "strip block"] by (cases "re_split (strip block)") auto
    from re_split_class [of "h @ r"] have "prefix ''class'' header"
      by (simp only: st [symmetric] rs list.sel)
    moreover from cs obtain g where "c = join (header # g)"
      by (auto simp: split_large_block_groups [OF rs])
    then have "prefix header c" by (simp only: prefix_join)
    ultimately show ?thesis by (rule prefix_order.trans)
  qed
qed

text \<open>
  C6, as stated, fails in its second part: text that does not start with the class
  marker is not a chunk of its own, it is dropped. A text without a marker gives no
  chunk, and the line in front of the first class is in no chunk.
\<close>

theorem chunk_drops_text_counterexample:
  "chunk None ''import os'' = []
   \<and> chunk None ''import os\<newline>class A(Base):\<newline>    x = 1'' = [''class A(Base):\<newline>    x = 1'']"
  by code_simp

text \<open>
  C6, amended. The empty input gives the empty sequence. Text in front of the first
  position where an entity header matches is dropped: the chunks are those of the text
  from there on (so a text in which no header matches gives the empty sequence). Every
  chunk starts with the word \<^verbatim>\<open>class\<close> of a header.
\<close>

theorem chunk_edge_cases:
  "chunk max_chunk_size [] = []
   \<and> (list_all (\<lambda>i. class_header (drop i (pre @ s)) = None) [0..<length pre] \<longrightarrow>
        chunk max_chunk_size (pre @ s) = chunk max_chunk_size s)
   \<and> (\<forall>c\<in>set (chunk max_chunk_size s). prefix ''class'' c)"
proof (intro conjI impI ballI)
  show "chunk max_chunk_size [] = []" by (simp add: chunk_def)
next
  assume "list_all (\<lambda>i. class_header (drop i (pre @ s)) = None) [0..<length pre]"
  then have "\<forall>i<length pre. class_header (drop i (pre @ s)) = None"
    by (simp add: list_all_iff)
  then have "findall (pre @ s) = findall s" by (rule findall_skip)
  then show "chunk max_chunk_size (pre @ s) = chunk max_chunk_size s"
    by (simp add: chunk_def)
next
  fix c
  assume "c \<in> set (chunk max_chunk_size s)"
  then show "prefix ''class'' c" by (rule chunk_starts_class)
qed

theorem chunk_edge_cases_witness:
  "list_all (\<lambda>i. class_header (drop i (''import os\<newline>'' @ ''class A(Base):\<newline>    x = 1'')) = None)
      [0..<length ''import os\<newline>'']
   \<and> chunk None (''import os\<newline>'' @ ''class A(Base):\<newline>    x = 1'')
       = chunk None ''class A(Base):\<newline>    x = 1''
   \<and> chunk None ''class A(Base):\<newline>    x = 1'' = [''class A(Base):\<newline>    x = 1'']
   \<and> list_all (prefix ''class'') (chunk None ''class A(Base):\<newline>    x = 1'')"
proof -
  have h: "list_all (\<lambda>i. class_header (drop i (''import os\<newline>'' @ ''class A(Base):\<newline>    x = 1'')) = None)
      [0..<length ''import os\<newline>'']"
    by code_simp
  have e: "chunk None ''class A(Base):\<newline>    x = 1'' = [''class A(Base):\<newline>    x = 1'']"
    by code_simp
  note t = chunk_edge_cases [of None "''import os\<newline>''" "''class A(Base):\<newline>    x = 1''"]
  from t h have 1: "chunk None (''import os\<newline>'' @ ''class A(Base):\<newline>    x = 1'')
       = chunk None ''class A(Base):\<newline>    x = 1''"
    by blast
  from t have 2: "list_all (prefix ''class'') (chunk None ''class A(Base):\<newline>    x = 1'')"
    unfolding list_all_iff by blast
  from h 1 e 2 show ?thesis by blast
qed






text \<open>
  C8, as stated, fails when a size limit is set. With \<^verbatim>\<open>max_chunk_size = 20\<close>, a class
  with an empty line between two members gives a first sub-chunk that ends in a line
  break; chunking the joined chunks again strips it.
\<close>

theorem chunk_not_idempotent_counterexample:
  "chunk (Some 20) ''class A(Base):\<newline>    x = 1\<newline>\<newline>    y = 2''
     = [''class A(Base):\<newline>x = 1\<newline>'', ''class A(Base):\<newline>y = 2'']
   \<and> chunk (Some 20) (join (chunk (Some 20) ''class A(Base):\<newline>    x = 1\<newline>\<newline>    y = 2''))
     = [''class A(Base):\<newline>x = 1'', ''class A(Base):\<newline>y = 2'']
   \<and> chunk (Some 20) (join (chunk (Some 20) ''class A(Base):\<newline>    x = 1\<newline>\<newline>    y = 2''))
     \<noteq> chunk (Some 20) ''class A(Base):\<newline>    x = 1\<newline>\<newline>    y = 2''"
  by code_simp

text \<open>
  C8, amended. Without a size limit (\<^verbatim>\<open>max_chunk_size\<close> is \<^verbatim>\<open>None\<close> or \<open>0\<close>) chunking is
  idempotent: for every text, chunking the chunks joined with line breaks gives the
  same chunks.
\<close>

theorem chunk_idempotent:
  "max_chunk_size = None \<or> max_chunk_size = Some 0 \<Longrightarrow>
     chunk max_chunk_size (join (chunk max_chunk_size s)) = chunk max_chunk_size s"
  by (rule chunk_unset_idempotent)

theorem chunk_idempotent_witness:
  "chunk None ''import os\<newline>class A(Base):\<newline>    x = 1\<newline>\<newline>class B(Base):\<newline>    y = 2\<newline>''
     = [''class A(Base):\<newline>    x = 1'', ''class B(Base):\<newline>    y = 2'']
   \<and> chunk None (join (chunk None
        ''import os\<newline>class A(Base):\<newline>    x = 1\<newline>\<newline>class B(Base):\<newline>    y = 2\<newline>''))
     = chunk None ''import os\<newline>class A(Base):\<newline>    x = 1\<newline>\<newline>class B(Base):\<newline>    y = 2\<newline>''"
proof -
  have e: "chunk None ''import os\<newline>class A(Base):\<newline>    x = 1\<newline>\<newline>class B(Base):\<newline>    y = 2\<newline>''
     = [''class A(Base):\<newline>    x = 1'', ''class B(Base):\<newline>    y = 2'']"
    by code_simp
  have h: "(None :: int option) = None \<or> (None :: int option) = Some 0" by simp
  from e chunk_idempotent [OF h] show ?thesis by blast
qed

end
